theory Spec2Isabelle
  imports Main "HOL-Library.Sublist" "HOL-Library.AList"
begin

section \<open>Errors, contexts and byte streams\<close>

text \<open>
  The backend of \<^verbatim>\<open>filesystem.go\<close> returns Go \<^verbatim>\<open>error\<close> values. They are built
  with \<^verbatim>\<open>fmt.Errorf\<close>, with or without the wrapping verb \<^verbatim>\<open>%w\<close>, or come from the
  \<^verbatim>\<open>os\<close> package (\<^verbatim>\<open>*os.PathError\<close>), from the context (\<^verbatim>\<open>ctx.Err()\<close>) or from the
  source stream handed to \<^verbatim>\<open>StoreData\<close>.
\<close>

datatype errno =
  ENOENT | ENOTDIR | EISDIR | ENOTEMPTY | EINVAL | EBUSY | EBADF | ENAMETOOLONG

datatype ctx_error = Canceled | DeadlineExceeded

datatype error =
    Errorf string
  | Wrapf string error
  | PathError string string errno
  | CtxErr ctx_error
  | SrcErr string

text \<open>\<^verbatim>\<open>os.IsNotExist\<close> looks into a \<^verbatim>\<open>*PathError\<close> but not through \<^verbatim>\<open>%w\<close>.\<close>

fun os_IsNotExist :: "error \<Rightarrow> bool" where
  "os_IsNotExist (PathError opn path e) = (e = ENOENT)"
| "os_IsNotExist err = False"

text \<open>
  A \<^verbatim>\<open>context.Context\<close> is seen by the backend only through \<^verbatim>\<open>Done()\<close> and
  \<^verbatim>\<open>Err()\<close>: it is \<open>None\<close> while the context is live and \<open>Some e\<close> once it is done.
\<close>

type_synonym Context = "ctx_error option"

type_synonym bytes = "char list"

text \<open>
  An \<^verbatim>\<open>io.Reader\<close> delivers a finite byte sequence and then ends, with \<^verbatim>\<open>io.EOF\<close>
  (\<open>None\<close>) or with an error of its own.
\<close>

datatype reader = Reader bytes "error option"

section \<open>Go library functions used by the backend\<close>

subsection \<open>Package strings\<close>

fun strings_Contains :: "string \<Rightarrow> string \<Rightarrow> bool" where
  "strings_Contains [] substr = (substr = [])"
| "strings_Contains (c # cs) substr = (prefix substr (c # cs) \<or> strings_Contains cs substr)"

definition strings_ContainsAny :: "string \<Rightarrow> string \<Rightarrow> bool" where
  "strings_ContainsAny s chars = list_ex (\<lambda>c. c \<in> set chars) s"

fun strings_Join :: "string list \<Rightarrow> string \<Rightarrow> string" where
  "strings_Join [] sep = []"
| "strings_Join [e] sep = e"
| "strings_Join (e # e' # es) sep = e @ sep @ strings_Join (e' # es) sep"

subsection \<open>Package path/filepath (Unix)\<close>

text \<open>
  \<^verbatim>\<open>filepath.Clean\<close> works lexically: it drops empty and \<^verbatim>\<open>.\<close> elements, lets an
  inner \<^verbatim>\<open>..\<close> cancel the element before it, drops \<^verbatim>\<open>..\<close> at the start of a rooted
  path, keeps it at the start of a relative one, and returns \<^verbatim>\<open>.\<close> for an empty
  result. The model follows the library's loop element by element: \<open>out\<close> is the
  output buffer as a list of elements, and "can backtrack" (\<^verbatim>\<open>out.w > dotdot\<close>) is
  "the buffer ends in an element other than \<^verbatim>\<open>..\<close>".
\<close>

definition Separator :: char where
  "Separator = CHR ''/''"

fun split_elems :: "string \<Rightarrow> string list" where
  "split_elems [] = [[]]"
| "split_elems (c # cs) =
     (if c = Separator then [] # split_elems cs
      else (case split_elems cs of
              [] \<Rightarrow> [[c]]
            | e # es \<Rightarrow> (c # e) # es))"

definition path_elems :: "string \<Rightarrow> string list" where
  "path_elems path = filter (\<lambda>e. e \<noteq> [] \<and> e \<noteq> ''.'') (split_elems path)"

definition rooted :: "string \<Rightarrow> bool" where
  "rooted path = (path \<noteq> [] \<and> hd path = Separator)"

definition clean_step :: "bool \<Rightarrow> string list \<Rightarrow> string \<Rightarrow> string list" where
  "clean_step r out e =
     (if e = ''..'' then
        (if out \<noteq> [] \<and> last out \<noteq> ''..'' then butlast out
         else if r then out
         else out @ [''..''])
      else out @ [e])"

definition Clean :: "string \<Rightarrow> string" where
  "Clean path =
     (if path = [] then ''.''
      else let r = rooted path;
               out = foldl (clean_step r) [] (path_elems path)
           in if r then Separator # strings_Join out [Separator]
              else if out = [] then ''.''
              else strings_Join out [Separator])"

text \<open>\<^verbatim>\<open>filepath.Join\<close> skips leading empty elements, joins the rest and cleans.\<close>

definition Join :: "string list \<Rightarrow> string" where
  "Join elem =
     (case dropWhile (\<lambda>e. e = []) elem of
        [] \<Rightarrow> []
      | es \<Rightarrow> Clean (strings_Join es [Separator]))"

text \<open>\<^verbatim>\<open>filepath.Dir\<close> cuts after the last separator and cleans what is left.\<close>

definition Dir :: "string \<Rightarrow> string" where
  "Dir path = Clean (rev (dropWhile (\<lambda>c. c \<noteq> Separator) (rev path)))"

section \<open>The storage medium\<close>

text \<open>
  The file system is a finite table from locations (absolute lists of names) to
  nodes; the root is always a directory. A path string is resolved against the
  working directory element by element; there are no symbolic links, so \<^verbatim>\<open>..\<close>
  steps to the parent lexically. A call fails when a name is missing, when a file
  stands where a directory is needed, when a directory is not empty, when the Go
  runtime refuses the path (a NUL byte) and when the host's length limits are
  exceeded: a single name is at most \<open>NAME_MAX\<close> bytes and a whole path shorter than
  \<open>PATH_MAX\<close> bytes, the values of Linux and of the common file systems. A path
  refused at the entry of a call has no effect at all. Permissions, quotas and
  device errors are outside the model.
  Every call to the medium, every lock operation and every read of the
  cancellation signal is appended to the \<open>trace\<close> of the world, in program order.
\<close>

type_synonym location = "string list"

datatype node = Dir_node | File_node bytes

type_synonym tree = "(location \<times> node) list"

datatype event =
    Lock | Unlock | RLock | RUnlock
  | CtxDone
  | IO_MkdirAll string
  | IO_Create string
  | IO_Copy location nat
  | IO_Close location
  | IO_Open string
  | IO_Remove string
  | IO_ReadDir string

fun is_io :: "event \<Rightarrow> bool" where
  "is_io Lock = False"
| "is_io Unlock = False"
| "is_io RLock = False"
| "is_io RUnlock = False"
| "is_io CtxDone = False"
| "is_io e = True"

record world =
  fs :: tree
  cwd :: location
  trace :: "event list"

definition emit :: "event \<Rightarrow> world \<Rightarrow> world" where
  "emit e w = w\<lparr>trace := trace w @ [e]\<rparr>"

definition node_at :: "tree \<Rightarrow> location \<Rightarrow> node option" where
  "node_at t loc = (if loc = [] then Some Dir_node else map_of t loc)"

definition abs_step :: "location \<Rightarrow> string \<Rightarrow> location" where
  "abs_step cur e = (if e = ''..'' then butlast cur else cur @ [e])"

definition resolve :: "location \<Rightarrow> string \<Rightarrow> location" where
  "resolve wd path = foldl abs_step (if rooted path then [] else wd) (path_elems path)"

definition NAME_MAX :: nat where
  "NAME_MAX = 255"

definition PATH_MAX :: nat where
  "PATH_MAX = 4096"

text \<open>
  What is refused before any lookup: a path with a NUL byte (by the Go runtime,
  \<^verbatim>\<open>EINVAL\<close>), the empty path, and a path that does not fit \<open>PATH_MAX\<close> with its
  terminator.
\<close>

definition path_check :: "string \<Rightarrow> errno option" where
  "path_check path =
     (if CHR 0x00 \<in> set path then Some EINVAL
      else if path = [] then Some ENOENT
      else if length path \<ge> PATH_MAX then Some ENAMETOOLONG
      else None)"

text \<open>
  \<open>walk t cur es\<close> descends from \<open>cur\<close> along \<open>es\<close>: every node passed on the way must
  be a directory, and a directory refuses to look up a name longer than \<open>NAME_MAX\<close>.
\<close>

fun walk :: "tree \<Rightarrow> location \<Rightarrow> string list \<Rightarrow> errno + node" where
  "walk t cur [] = (case node_at t cur of None \<Rightarrow> Inl ENOENT | Some n \<Rightarrow> Inr n)"
| "walk t cur (e # es) =
     (case node_at t cur of
        None \<Rightarrow> Inl ENOENT
      | Some (File_node c) \<Rightarrow> Inl ENOTDIR
      | Some Dir_node \<Rightarrow>
          if length e > NAME_MAX then Inl ENAMETOOLONG else walk t (cur @ [e]) es)"

definition lstat :: "world \<Rightarrow> string \<Rightarrow> errno + node" where
  "lstat w path =
     (case path_check path of
        Some e \<Rightarrow> Inl e
      | None \<Rightarrow> walk (fs w) [] (resolve (cwd w) path))"

definition children :: "tree \<Rightarrow> location \<Rightarrow> string list" where
  "children t loc =
     remdups (map (\<lambda>(k, n). last k) (filter (\<lambda>(k, n). k \<noteq> [] \<and> butlast k = loc) t))"

definition final_elem :: "string \<Rightarrow> string" where
  "final_elem path =
     (let es = filter (\<lambda>e. e \<noteq> []) (split_elems path) in if es = [] then [] else last es)"

subsection \<open>Package os\<close>

datatype os_File = FileHandle location

definition ensure_dir :: "tree \<Rightarrow> location \<Rightarrow> errno option \<times> tree" where
  "ensure_dir t cur =
     (case node_at t cur of
        Some Dir_node \<Rightarrow> (None, t)
      | Some (File_node c) \<Rightarrow> (Some ENOTDIR, t)
      | None \<Rightarrow> (None, (cur, Dir_node) # t))"

fun mkdir_all :: "tree \<Rightarrow> location \<Rightarrow> string list \<Rightarrow> errno option \<times> tree" where
  "mkdir_all t cur [] = ensure_dir t cur"
| "mkdir_all t cur (e # es) =
     (case ensure_dir t cur of
        (Some err, t') \<Rightarrow> (Some err, t')
      | (None, t') \<Rightarrow>
          if length e > NAME_MAX then (Some ENAMETOOLONG, t')
          else mkdir_all t' (cur @ [e]) es)"

text \<open>\<^verbatim>\<open>os.MkdirAll\<close>: creates the directory and every missing parent.\<close>

definition os_MkdirAll :: "string \<Rightarrow> world \<Rightarrow> error option \<times> world" where
  "os_MkdirAll path w =
     (let w1 = emit (IO_MkdirAll path) w in
      case path_check path of
        Some e \<Rightarrow> (Some (PathError ''mkdir'' path e), w1)
      | None \<Rightarrow>
          (case mkdir_all (fs w1) [] (resolve (cwd w1) path) of
             (Some e, t) \<Rightarrow> (Some (PathError ''mkdir'' path e), w1\<lparr>fs := t\<rparr>)
           | (None, t) \<Rightarrow> (None, w1\<lparr>fs := t\<rparr>)))"

text \<open>\<^verbatim>\<open>os.Create\<close>: opens for writing, creating the file or truncating it.\<close>

definition os_Create :: "string \<Rightarrow> world \<Rightarrow> (error + os_File) \<times> world" where
  "os_Create path w =
     (let w1 = emit (IO_Create path) w; loc = resolve (cwd w1) path in
      case path_check path of
        Some e \<Rightarrow> (Inl (PathError ''open'' path e), w1)
      | None \<Rightarrow>
          if loc = [] then (Inl (PathError ''open'' path EISDIR), w1)
          else (case walk (fs w1) [] (butlast loc) of
                  Inl e \<Rightarrow> (Inl (PathError ''open'' path e), w1)
                | Inr (File_node c) \<Rightarrow> (Inl (PathError ''open'' path ENOTDIR), w1)
                | Inr Dir_node \<Rightarrow>
                    if length (last loc) > NAME_MAX
                      then (Inl (PathError ''open'' path ENAMETOOLONG), w1)
                    else (case node_at (fs w1) loc of
                            Some Dir_node \<Rightarrow> (Inl (PathError ''open'' path EISDIR), w1)
                          | _ \<Rightarrow> (Inr (FileHandle loc),
                                  w1\<lparr>fs := AList.update loc (File_node []) (fs w1)\<rparr>))))"

text \<open>\<^verbatim>\<open>os.Open\<close>: opens an existing node for reading.\<close>

definition os_Open :: "string \<Rightarrow> world \<Rightarrow> (error + os_File) \<times> world" where
  "os_Open path w =
     (let w1 = emit (IO_Open path) w in
      case lstat w1 path of
        Inl e \<Rightarrow> (Inl (PathError ''open'' path e), w1)
      | Inr n \<Rightarrow> (Inr (FileHandle (resolve (cwd w1) path)), w1))"

text \<open>
  \<^verbatim>\<open>os.Remove\<close>: unlinks a file or removes an empty directory. The root cannot be
  removed, and \<^verbatim>\<open>rmdir\<close> refuses a path whose last element is \<^verbatim>\<open>.\<close> or \<^verbatim>\<open>..\<close>.
\<close>

definition os_Remove :: "string \<Rightarrow> world \<Rightarrow> error option \<times> world" where
  "os_Remove path w =
     (let w1 = emit (IO_Remove path) w; loc = resolve (cwd w1) path in
      case lstat w1 path of
        Inl e \<Rightarrow> (Some (PathError ''remove'' path e), w1)
      | Inr (File_node c) \<Rightarrow> (None, w1\<lparr>fs := AList.delete loc (fs w1)\<rparr>)
      | Inr Dir_node \<Rightarrow>
          if loc = [] then (Some (PathError ''remove'' path EBUSY), w1)
          else if final_elem path = ''.'' \<or> final_elem path = ''..''
            then (Some (PathError ''remove'' path EINVAL), w1)
          else if children (fs w1) loc \<noteq> []
            then (Some (PathError ''remove'' path ENOTEMPTY), w1)
          else (None, w1\<lparr>fs := AList.delete loc (fs w1)\<rparr>))"

text \<open>\<^verbatim>\<open>os.ReadDir\<close>: the names in a directory.\<close>

definition os_ReadDir :: "string \<Rightarrow> world \<Rightarrow> (error + string list) \<times> world" where
  "os_ReadDir path w =
     (let w1 = emit (IO_ReadDir path) w in
      case lstat w1 path of
        Inl e \<Rightarrow> (Inl (PathError ''open'' path e), w1)
      | Inr (File_node c) \<Rightarrow> (Inl (PathError ''readdir'' path ENOTDIR), w1)
      | Inr Dir_node \<Rightarrow> (Inr (children (fs w1) (resolve (cwd w1) path)), w1))"

subsection \<open>Package io\<close>

text \<open>
  \<^verbatim>\<open>io.Copy(dst, src)\<close> writes everything \<open>src\<close> delivers to the file and returns
  the number of bytes written together with the error that ended the stream, if
  any. The handle writes at its own offset, which starts at 0 on a file that
  \<^verbatim>\<open>os.Create\<close> has just truncated, so the bytes extend the file.
\<close>

definition io_Copy :: "os_File \<Rightarrow> reader \<Rightarrow> world \<Rightarrow> (int \<times> error option) \<times> world" where
  "io_Copy dst src w =
     (case (dst, src) of
        (FileHandle loc, Reader bs err) \<Rightarrow>
          (let w1 = emit (IO_Copy loc (length bs)) w in
           case node_at (fs w1) loc of
             Some (File_node old) \<Rightarrow>
               ((int (length bs), err),
                w1\<lparr>fs := AList.update loc (File_node (old @ bs)) (fs w1)\<rparr>)
           | _ \<Rightarrow> ((0, Some (PathError ''write'' [] EBADF)), w1)))"

definition file_Close :: "os_File \<Rightarrow> world \<Rightarrow> world" where
  "file_Close f w = (case f of FileHandle loc \<Rightarrow> emit (IO_Close loc) w)"

text \<open>\<^verbatim>\<open>io.ReadAll\<close> on an open file: what a caller reads from the handle.\<close>

definition io_ReadAll :: "os_File \<Rightarrow> world \<Rightarrow> error + bytes" where
  "io_ReadAll f w =
     (case f of
        FileHandle loc \<Rightarrow>
          (case node_at (fs w) loc of
             Some (File_node c) \<Rightarrow> Inr c
           | Some Dir_node \<Rightarrow> Inl (PathError ''read'' [] EISDIR)
           | None \<Rightarrow> Inl (PathError ''read'' [] EBADF)))"

section \<open>The backend\<close>

record Backend =
  basePath :: string
  closed :: bool

text \<open>
  The mutex \<^verbatim>\<open>mu\<close> is seen through the \<open>Lock\<close>/\<open>Unlock\<close> events of the trace:
  \<open>locked\<close> is \<^verbatim>\<open>b.mu.Lock(); defer b.mu.Unlock()\<close> around the rest of a method,
  \<open>rlocked\<close> the same with the read lock.
\<close>

definition locked :: "(world \<Rightarrow> 'a \<times> world) \<Rightarrow> world \<Rightarrow> 'a \<times> world" where
  "locked body w = (case body (emit Lock w) of (r, w') \<Rightarrow> (r, emit Unlock w'))"

definition rlocked :: "(world \<Rightarrow> 'a \<times> world) \<Rightarrow> world \<Rightarrow> 'a \<times> world" where
  "rlocked body w = (case body (emit RLock w) of (r, w') \<Rightarrow> (r, emit RUnlock w'))"

text \<open>The non-blocking \<^verbatim>\<open>select\<close> on \<^verbatim>\<open>ctx.Done()\<close>, returning \<^verbatim>\<open>ctx.Err()\<close>.\<close>

definition ctx_Done :: "Context \<Rightarrow> world \<Rightarrow> ctx_error option \<times> world" where
  "ctx_Done ctx w = (ctx, emit CtxDone w)"

definition NewBackend :: "string \<Rightarrow> world \<Rightarrow> (error + Backend) \<times> world" where
  "NewBackend base w =
     (case os_MkdirAll base w of
        (Some err, w1) \<Rightarrow> (Inl (Wrapf ''failed to create base directory'' err), w1)
      | (None, w1) \<Rightarrow> (Inr \<lparr>basePath = base, closed = False\<rparr>, w1))"

definition validateMessageID :: "Backend \<Rightarrow> string \<Rightarrow> error option" where
  "validateMessageID b messageID =
     (if messageID = [] then Some (Errorf ''messageID cannot be empty'')
      else if strings_Contains messageID ''..''
        then Some (Errorf (''messageID cannot contain '' @ [CHR 0x27] @ ''..'' @ [CHR 0x27]))
      else if strings_ContainsAny messageID [CHR ''/'', CHR 0x5C]
        then Some (Errorf ''messageID cannot contain path separators'')
      else if length messageID > 255
        then Some (Errorf ''messageID too long (max 255 characters)'')
      else None)"

definition getDataPath :: "Backend \<Rightarrow> string \<Rightarrow> string" where
  "getDataPath b messageID =
     (if length messageID \<ge> 2
        then Join [basePath b, take 2 messageID, messageID @ ''.data'']
      else Join [basePath b, ''misc'', messageID @ ''.data''])"

function cleanupEmptyDirs :: "Backend \<Rightarrow> string \<Rightarrow> world \<Rightarrow> world" where
  "cleanupEmptyDirs b dir w =
     (if dir = basePath b then w
      else (case os_ReadDir dir w of
              (Inl err, w1) \<Rightarrow> w1
            | (Inr entries, w1) \<Rightarrow>
                (if length entries > 0 then w1
                 else (case os_Remove dir w1 of
                         (Some err, w2) \<Rightarrow> w2
                       | (None, w2) \<Rightarrow> cleanupEmptyDirs b (Dir dir) w2))))"
  by pat_completeness auto
termination
proof (relation "measure (\<lambda>(b, dir, w). length (fs w))")
  show "wf (measure (\<lambda>(b, dir, w). length (fs w)))"
    by simp
next
  fix b :: Backend and dir :: string and w w1 w2 :: world
    and x :: "error + string list" and entries :: "string list"
    and y :: "error option"
  assume rd: "(x, w1) = os_ReadDir dir w" "x = Inr entries"
    and rm: "(y, w2) = os_Remove dir w1" "y = None"
  have fs1: "fs w1 = fs w"
    using rd [symmetric]
    by (auto simp: os_ReadDir_def emit_def Let_def split: sum.splits node.splits)
  have del: "length (AList.delete k t) < length t" if "map_of t k \<noteq> None"
    for k :: location and t :: tree
  proof -
    from that have "k \<in> fst ` set t"
      by (simp add: map_of_eq_None_iff)
    then obtain v where "(k, v) \<in> set t"
      by auto
    then show ?thesis
      using length_filter_less [of "(k, v)" t "\<lambda>(k', v). k \<noteq> k'"]
      by (simp add: AList.delete_eq)
  qed
  have nz: "map_of t loc \<noteq> None" if "walk t [] loc = Inr n" "loc \<noteq> []"
    for t :: tree and loc :: location and n :: node
  proof -
    have "walk t c es = Inr n \<Longrightarrow> node_at t (c @ es) = Some n" for c es
    proof (induction es arbitrary: c)
      case Nil
      then show ?case
        by (auto split: option.splits)
    next
      case (Cons a es)
      from Cons.prems have "walk t (c @ [a]) es = Inr n"
        by (auto split: option.splits node.splits if_splits)
      from Cons.IH [OF this] show ?case
        by simp
    qed
    from this [OF that(1)] that(2) show ?thesis
      by (simp add: node_at_def)
  qed
  have key: "length (AList.delete loc t) < length t"
    if "walk t [] loc = Inr n" "loc \<noteq> [] \<or> n \<noteq> Dir_node"
    for t :: tree and loc :: location and n :: node
  proof -
    from that have "loc \<noteq> []"
      by (auto simp: node_at_def)
    with that(1) show ?thesis
      by (intro del nz)
  qed
  let ?loc = "resolve (cwd w1) dir"
  have "\<exists>n. walk (fs w1) [] ?loc = Inr n \<and> (?loc \<noteq> [] \<or> n \<noteq> Dir_node)
      \<and> fs w2 = AList.delete ?loc (fs w1)"
    using rm [symmetric]
    by (auto simp: os_Remove_def lstat_def emit_def Let_def
        split: sum.splits node.splits if_splits option.splits)
  with key have "length (fs w2) < length (fs w1)"
    by auto
  with fs1 show "((b, Dir dir, w2), (b, dir, w)) \<in> measure (\<lambda>(b, dir, w). length (fs w))"
    by simp
qed

declare cleanupEmptyDirs.simps [simp del]

definition StoreData ::
  "Backend \<Rightarrow> Context \<Rightarrow> string \<Rightarrow> reader \<Rightarrow> world \<Rightarrow> (error + int) \<times> world" where
  "StoreData b ctx messageID data w =
     (case validateMessageID b messageID of
        Some err \<Rightarrow> (Inl err, w)
      | None \<Rightarrow>
          locked (\<lambda>w.
            if closed b then (Inl (Errorf ''backend is closed''), w)
            else case ctx_Done ctx w of
              (Some cerr, w0) \<Rightarrow> (Inl (CtxErr cerr), w0)
            | (None, w0) \<Rightarrow>
                (let dataPath = getDataPath b messageID in
                 case os_MkdirAll (Dir dataPath) w0 of
                   (Some err, w1) \<Rightarrow> (Inl (Wrapf ''failed to create data directory'' err), w1)
                 | (None, w1) \<Rightarrow>
                     (case os_Create dataPath w1 of
                        (Inl err, w2) \<Rightarrow> (Inl (Wrapf ''failed to create data file'' err), w2)
                      | (Inr dataFile, w2) \<Rightarrow>
                          (case io_Copy dataFile data w2 of
                             ((sz, Some err), w3) \<Rightarrow>
                               (Inl (Wrapf ''failed to write data'' err), file_Close dataFile w3)
                           | ((sz, None), w3) \<Rightarrow>
                               (Inr sz, file_Close dataFile w3))))) w)"

definition GetDataReader ::
  "Backend \<Rightarrow> Context \<Rightarrow> string \<Rightarrow> world \<Rightarrow> (error + os_File) \<times> world" where
  "GetDataReader b ctx messageID w =
     (case validateMessageID b messageID of
        Some err \<Rightarrow> (Inl err, w)
      | None \<Rightarrow>
          rlocked (\<lambda>w.
            if closed b then (Inl (Errorf ''backend is closed''), w)
            else case ctx_Done ctx w of
              (Some cerr, w0) \<Rightarrow> (Inl (CtxErr cerr), w0)
            | (None, w0) \<Rightarrow>
                (let dataPath = getDataPath b messageID in
                 case os_Open dataPath w0 of
                   (Inl err, w1) \<Rightarrow>
                     if os_IsNotExist err
                       then (Inl (Errorf (''message data not found: '' @ messageID)), w1)
                     else (Inl (Wrapf ''failed to open data file'' err), w1)
                 | (Inr file, w1) \<Rightarrow> (Inr file, w1))) w)"

definition GetDataWriter ::
  "Backend \<Rightarrow> Context \<Rightarrow> string \<Rightarrow> world \<Rightarrow> (error + os_File) \<times> world" where
  "GetDataWriter b ctx messageID w =
     (case validateMessageID b messageID of
        Some err \<Rightarrow> (Inl err, w)
      | None \<Rightarrow>
          locked (\<lambda>w.
            if closed b then (Inl (Errorf ''backend is closed''), w)
            else case ctx_Done ctx w of
              (Some cerr, w0) \<Rightarrow> (Inl (CtxErr cerr), w0)
            | (None, w0) \<Rightarrow>
                (let dataPath = getDataPath b messageID in
                 case os_MkdirAll (Dir dataPath) w0 of
                   (Some err, w1) \<Rightarrow> (Inl (Wrapf ''failed to create data directory'' err), w1)
                 | (None, w1) \<Rightarrow>
                     (case os_Create dataPath w1 of
                        (Inl err, w2) \<Rightarrow> (Inl (Wrapf ''failed to create data file'' err), w2)
                      | (Inr file, w2) \<Rightarrow> (Inr file, w2)))) w)"

definition DeleteData ::
  "Backend \<Rightarrow> Context \<Rightarrow> string \<Rightarrow> world \<Rightarrow> error option \<times> world" where
  "DeleteData b ctx messageID w =
     (case validateMessageID b messageID of
        Some err \<Rightarrow> (Some err, w)
      | None \<Rightarrow>
          locked (\<lambda>w.
            if closed b then (Some (Errorf ''backend is closed''), w)
            else case ctx_Done ctx w of
              (Some cerr, w0) \<Rightarrow> (Some (CtxErr cerr), w0)
            | (None, w0) \<Rightarrow>
                (let dataPath = getDataPath b messageID in
                 case os_Remove dataPath w0 of
                   (Some err, w1) \<Rightarrow>
                     if \<not> os_IsNotExist err
                       then (Some (Wrapf ''failed to delete data file'' err), w1)
                     else (None, cleanupEmptyDirs b (Dir dataPath) w1)
                 | (None, w1) \<Rightarrow> (None, cleanupEmptyDirs b (Dir dataPath) w1))) w)"

definition Close :: "Backend \<Rightarrow> world \<Rightarrow> (error option \<times> Backend) \<times> world" where
  "Close b w = locked (\<lambda>w. ((None, b\<lparr>closed := True\<rparr>), w)) w"

section \<open>Notions used in the statements\<close>

text \<open>
  The shard of an identifier, as \<^verbatim>\<open>getDataPath\<close> chooses it, and what makes a
  string a single name of a path: not empty, not \<^verbatim>\<open>.\<close> or \<^verbatim>\<open>..\<close>, no separator.
\<close>

definition shard_of :: "string \<Rightarrow> string" where
  "shard_of messageID = (if length messageID \<ge> 2 then take 2 messageID else ''misc'')"

definition is_name :: "string \<Rightarrow> bool" where
  "is_name e = (e \<noteq> [] \<and> e \<noteq> ''.'' \<and> e \<noteq> ''..'' \<and> Separator \<notin> set e)"

section \<open>Example states\<close>

text \<open>
  A backend rooted at \<^verbatim>\<open>/data\<close>, a world in which only the base directory exists,
  and a world in which a regular file stands where the shard directory \<^verbatim>\<open>ab\<close>
  would be.
\<close>

definition example_backend :: Backend where
  "example_backend = \<lparr>basePath = ''/data'', closed = False\<rparr>"

definition example_world :: world where
  "example_world = \<lparr>fs = [([''data''], Dir_node)], cwd = [], trace = []\<rparr>"

definition blocked_world :: world where
  "blocked_world =
     \<lparr>fs = [([''data''], Dir_node), ([''data'', ''ab''], File_node ''x'')], cwd = [], trace = []\<rparr>"



definition shard_world :: world where
  "shard_world =
     \<lparr>fs = [([''data''], Dir_node), ([''data'', ''aa''], Dir_node),
            ([''data'', ''aa'', ''aab.data''], File_node ''x'')],
      cwd = [], trace = []\<rparr>"

section \<open>Basic facts about the model\<close>

lemma emit_simps [simp]:
  "fs (emit e w) = fs w" "cwd (emit e w) = cwd w" "trace (emit e w) = trace w @ [e]"
  by (simp_all add: emit_def)

lemma lstat_emit [simp]: "lstat (emit e w) path = lstat w path"
  by (simp add: lstat_def split: option.splits)

lemma strings_Contains_iff: "strings_Contains s substr \<longleftrightarrow> (\<exists>u v. s = u @ substr @ v)"
proof -
  have "strings_Contains s substr \<longleftrightarrow> sublist substr s"
    by (induction s) (simp_all add: sublist_Cons_right)
  then show ?thesis
    by (simp add: sublist_def)
qed

lemma strings_ContainsAny_iff: "strings_ContainsAny s chars \<longleftrightarrow> set s \<inter> set chars \<noteq> {}"
  by (auto simp: strings_ContainsAny_def list_ex_iff)

lemma validateMessageID_None_iff:
  "validateMessageID b messageID = None \<longleftrightarrow>
     messageID \<noteq> [] \<and> \<not> (\<exists>u v. messageID = u @ ''..'' @ v) \<and>
     CHR ''/'' \<notin> set messageID \<and> CHR 0x5C \<notin> set messageID \<and> length messageID \<le> 255"
  unfolding validateMessageID_def strings_Contains_iff strings_ContainsAny_iff
  by auto

lemma os_MkdirAll_trace: "trace (snd (os_MkdirAll path w)) = trace w @ [IO_MkdirAll path]"
  by (simp add: os_MkdirAll_def Let_def split: prod.splits option.splits)

lemma os_Create_trace: "trace (snd (os_Create path w)) = trace w @ [IO_Create path]"
  by (simp add: os_Create_def Let_def split: sum.splits node.splits option.splits)

lemma os_Open_trace: "trace (snd (os_Open path w)) = trace w @ [IO_Open path]"
  by (simp add: os_Open_def Let_def split: sum.splits)

lemma os_Remove_trace: "trace (snd (os_Remove path w)) = trace w @ [IO_Remove path]"
  by (simp add: os_Remove_def Let_def split: sum.splits node.splits)

lemma os_ReadDir_trace: "trace (snd (os_ReadDir path w)) = trace w @ [IO_ReadDir path]"
  by (simp add: os_ReadDir_def Let_def split: sum.splits node.splits)

lemma io_Copy_trace:
  "\<exists>loc n. trace (snd (io_Copy f src w)) = trace w @ [IO_Copy loc n]"
  by (cases f; cases src) (simp add: io_Copy_def Let_def split: option.splits node.splits)

lemma file_Close_trace: "\<exists>loc. trace (file_Close f w) = trace w @ [IO_Close loc]"
  by (cases f) (simp add: file_Close_def)

lemma cleanupEmptyDirs_trace:
  "\<exists>evs. trace (cleanupEmptyDirs b dir w) = trace w @ evs \<and> (\<forall>e \<in> set evs. is_io e)"
proof (induction b dir w rule: cleanupEmptyDirs.induct)
  case (1 b dir w)
  show ?case
  proof (cases "dir = basePath b")
    case True
    then have "cleanupEmptyDirs b dir w = w"
      by (subst cleanupEmptyDirs.simps) simp
    then show ?thesis by simp
  next
    case nb: False
    obtain x w1 where rd: "os_ReadDir dir w = (x, w1)"
      by (cases "os_ReadDir dir w")
    have t1: "trace w1 = trace w @ [IO_ReadDir dir]"
      using os_ReadDir_trace [of dir w] rd by simp
    show ?thesis
    proof (cases x)
      case (Inl err)
      with nb rd t1 show ?thesis by (simp add: cleanupEmptyDirs.simps [of b dir w])
    next
      case (Inr entries)
      show ?thesis
      proof (cases "length entries > 0")
        case True
        with nb rd t1 Inr show ?thesis by (simp add: cleanupEmptyDirs.simps [of b dir w])
      next
        case ne: False
        obtain y w2 where rm: "os_Remove dir w1 = (y, w2)"
          by (cases "os_Remove dir w1")
        have t2: "trace w2 = trace w1 @ [IO_Remove dir]"
          using os_Remove_trace [of dir w1] rm by simp
        show ?thesis
        proof (cases y)
          case (Some err)
          with nb rd t1 Inr ne rm t2 show ?thesis
            by (simp add: cleanupEmptyDirs.simps [of b dir w])
        next
          case None
          from "1.IH" [OF nb rd [symmetric] Inr ne rm [symmetric] None]
          obtain evs where "trace (cleanupEmptyDirs b (Dir dir) w2) = trace w2 @ evs"
            "\<forall>e \<in> set evs. is_io e"
            by blast
          with nb rd t1 Inr ne rm t2 None show ?thesis
            by (simp add: cleanupEmptyDirs.simps [of b dir w])
        qed
      qed
    qed
  qed
qed

lemma valid_abcd: "validateMessageID b ''abcd'' = None"
  by (simp add: validateMessageID_def strings_ContainsAny_def)

section \<open>Facts about the storage medium\<close>

lemma node_at_Nil [simp]: "node_at t [] = Some Dir_node"
  by (simp add: node_at_def)

lemma node_at_update:
  "node_at (AList.update k v t) loc =
     (if loc = [] then Some Dir_node else if loc = k then Some v else node_at t loc)"
  by (simp add: node_at_def update_conv')

lemma node_at_delete:
  "node_at (AList.delete k t) loc =
     (if loc = [] then Some Dir_node else if loc = k then None else node_at t loc)"
  by (simp add: node_at_def delete_conv')

lemma walk_agree:
  "(\<And>q. length q \<le> length cur + length es \<Longrightarrow> node_at t' q = node_at t q)
    \<Longrightarrow> walk t' cur es = walk t cur es"
proof (induction es arbitrary: cur)
  case Nil
  then show ?case by simp
next
  case (Cons e es)
  have "node_at t' cur = node_at t cur"
    by (rule Cons.prems) simp
  moreover have "walk t' (cur @ [e]) es = walk t (cur @ [e]) es"
    by (rule Cons.IH) (simp add: Cons.prems)
  ultimately show ?case
    by (simp split: option.splits node.splits)
qed

lemma walk_snoc:
  "walk t cur (es @ [e]) =
     (case walk t cur es of
        Inl err \<Rightarrow> Inl err
      | Inr (File_node c) \<Rightarrow> Inl ENOTDIR
      | Inr Dir_node \<Rightarrow>
          if length e > NAME_MAX then Inl ENAMETOOLONG
          else (case node_at t (cur @ es @ [e]) of None \<Rightarrow> Inl ENOENT | Some n \<Rightarrow> Inr n))"
  by (induction es arbitrary: cur) (auto split: option.splits node.splits)

lemma walk_Inr_node: "walk t cur es = Inr n \<Longrightarrow> node_at t (cur @ es) = Some n"
proof (induction es arbitrary: cur)
  case Nil
  then show ?case by (auto split: option.splits)
next
  case (Cons e es)
  from Cons.prems have "walk t (cur @ [e]) es = Inr n"
    by (auto split: option.splits node.splits if_splits)
  from Cons.IH [OF this] show ?case by simp
qed

lemma walk_child:
  assumes "loc \<noteq> []" "walk t [] (butlast loc) = Inr Dir_node" "length (last loc) \<le> NAME_MAX"
  shows "walk t [] loc = (case node_at t loc of None \<Rightarrow> Inl ENOENT | Some n \<Rightarrow> Inr n)"
proof -
  from assms(1) have "loc = butlast loc @ [last loc]"
    by simp
  then have "walk t [] loc = walk t [] (butlast loc @ [last loc])"
    by simp
  also have "\<dots> = (case node_at t (butlast loc @ [last loc]) of
      None \<Rightarrow> Inl ENOENT | Some n \<Rightarrow> Inr n)"
    using assms(2,3) by (simp add: walk_snoc del: append_butlast_last_id)
  finally show ?thesis
    using assms(1) by simp
qed

lemma walk_parent:
  assumes "loc \<noteq> []" "walk t [] loc = Inr n"
  shows "walk t [] (butlast loc) = Inr Dir_node"
proof -
  from assms(1) have "loc = butlast loc @ [last loc]"
    by simp
  with assms(2) have "walk t [] (butlast loc @ [last loc]) = Inr n"
    by simp
  then show ?thesis
    by (auto simp: walk_snoc simp del: append_butlast_last_id
        split: sum.splits node.splits if_splits)
qed

lemma walk_shrink:
  assumes "\<And>q. node_at t' q = None \<or> node_at t' q = node_at t q"
    and "walk t cur es = Inl ENOENT"
  shows "walk t' cur es = Inl ENOENT"
  using assms(2)
proof (induction es arbitrary: cur)
  case Nil
  with assms(1) [of cur] show ?case
    by (auto split: option.splits)
next
  case (Cons e es)
  show ?case
  proof (cases "node_at t cur")
    case None
    with assms(1) [of cur] show ?thesis by simp
  next
    case (Some n)
    with Cons.prems obtain d: "n = Dir_node" and "walk t (cur @ [e]) es = Inl ENOENT"
      and l: "\<not> length e > NAME_MAX"
      by (cases n) (auto split: if_splits)
    from Cons.IH [OF this(2)] have "walk t' (cur @ [e]) es = Inl ENOENT" .
    with assms(1) [of cur] Some d l show ?thesis
      by auto
  qed
qed

lemma walk_butlast_update:
  "loc \<noteq> [] \<Longrightarrow> walk (AList.update loc v t) [] (butlast loc) = walk t [] (butlast loc)"
proof (rule walk_agree)
  fix q :: location
  assume a: "loc \<noteq> []" and b: "length q \<le> length [] + length (butlast loc)"
  from a have "length loc = Suc (length (butlast loc))"
    by (cases loc rule: rev_cases) simp_all
  with b have "length q < length loc"
    by (simp del: length_butlast)
  then have "q \<noteq> loc"
    by auto
  then show "node_at (AList.update loc v t) q = node_at t q"
    by (simp add: node_at_update)
qed

lemma walk_butlast_delete:
  "loc \<noteq> [] \<Longrightarrow> walk (AList.delete loc t) [] (butlast loc) = walk t [] (butlast loc)"
proof (rule walk_agree)
  fix q :: location
  assume a: "loc \<noteq> []" and b: "length q \<le> length [] + length (butlast loc)"
  from a have "length loc = Suc (length (butlast loc))"
    by (cases loc rule: rev_cases) simp_all
  with b have "length q < length loc"
    by (simp del: length_butlast)
  then have "q \<noteq> loc"
    by auto
  then show "node_at (AList.delete loc t) q = node_at t q"
    by (simp add: node_at_delete)
qed

lemma os_Create_Inr:
  assumes "os_Create path w = (Inr f, w')"
  shows "path_check path = None \<and> resolve (cwd w) path \<noteq> []
    \<and> length (last (resolve (cwd w) path)) \<le> NAME_MAX
    \<and> f = FileHandle (resolve (cwd w) path)
    \<and> walk (fs w) [] (butlast (resolve (cwd w) path)) = Inr Dir_node
    \<and> node_at (fs w) (resolve (cwd w) path) \<noteq> Some Dir_node
    \<and> fs w' = AList.update (resolve (cwd w) path) (File_node []) (fs w)
    \<and> cwd w' = cwd w"
  using assms
  by (auto simp: os_Create_def Let_def split: if_splits sum.splits node.splits option.splits)

lemma os_MkdirAll_cwd: "cwd (snd (os_MkdirAll path w)) = cwd w"
  by (simp add: os_MkdirAll_def Let_def split: prod.splits option.splits)

text \<open>What a successful \<^verbatim>\<open>StoreData\<close> tells about its arguments and leaves behind.\<close>

lemma StoreData_Inr:
  assumes "StoreData b ctx messageID (Reader B err) w = (Inr n, w1)"
  shows "validateMessageID b messageID = None \<and> \<not> closed b \<and> ctx = None \<and> err = None
    \<and> n = int (length B) \<and> cwd w1 = cwd w
    \<and> lstat w1 (getDataPath b messageID) = Inr (File_node B)"
proof -
  let ?p = "getDataPath b messageID"
  let ?w0 = "emit CtxDone (emit Lock w)"
  from assms have v: "validateMessageID b messageID = None"
    by (auto simp: StoreData_def split: option.splits)
  from assms v have c: "\<not> closed b"
    by (auto simp: StoreData_def locked_def split: if_splits)
  from assms v c have x: "ctx = None"
    by (cases ctx) (auto simp: StoreData_def locked_def ctx_Done_def)
  obtain r1 wa where mk: "os_MkdirAll (Dir ?p) ?w0 = (r1, wa)"
    by (cases "os_MkdirAll (Dir ?p) ?w0")
  from assms v c x mk have r1: "r1 = None"
    by (cases r1) (auto simp: StoreData_def locked_def ctx_Done_def)
  have cwa: "cwd wa = cwd w"
    using os_MkdirAll_cwd [of "Dir ?p" ?w0] mk by simp
  obtain r2 wb where cr: "os_Create ?p wa = (r2, wb)"
    by (cases "os_Create ?p wa")
  from assms v c x mk r1 cr obtain f where r2: "r2 = Inr f"
    by (cases r2) (auto simp: StoreData_def locked_def ctx_Done_def)
  let ?loc = "resolve (cwd w) ?p"
  from os_Create_Inr [OF cr [unfolded r2]] cwa
  have pn: "path_check ?p = None" and ln: "?loc \<noteq> []"
    and nm: "length (last ?loc) \<le> NAME_MAX" and f: "f = FileHandle ?loc"
    and par: "walk (fs wa) [] (butlast ?loc) = Inr Dir_node"
    and fsb: "fs wb = AList.update ?loc (File_node []) (fs wa)"
    and cwb: "cwd wb = cwd w"
    by simp_all
  let ?t = "AList.update ?loc (File_node B) (fs wb)"
  have cp: "io_Copy f (Reader B err) wb
      = ((int (length B), err), (emit (IO_Copy ?loc (length B)) wb)\<lparr>fs := ?t\<rparr>)"
    using ln by (simp add: io_Copy_def f fsb node_at_update)
  from assms v c x mk r1 cr r2 cp have e: "err = None"
    by (cases err) (auto simp: StoreData_def locked_def ctx_Done_def)
  from assms v c x mk r1 cr r2 cp e
  have n: "n = int (length B)"
    and w1: "w1 = emit Unlock (file_Close f ((emit (IO_Copy ?loc (length B)) wb)\<lparr>fs := ?t\<rparr>))"
    by (auto simp: StoreData_def locked_def ctx_Done_def)
  have fs1: "fs w1 = ?t" and cw1: "cwd w1 = cwd w"
    by (simp_all add: w1 f file_Close_def cwb)
  have "walk ?t [] (butlast ?loc) = Inr Dir_node"
    using ln par by (simp add: fsb walk_butlast_update)
  then have "walk ?t [] ?loc = Inr (File_node B)"
    using ln nm by (simp add: walk_child node_at_update)
  then have "lstat w1 ?p = Inr (File_node B)"
    using pn by (simp add: lstat_def fs1 cw1)
  with v c x e n cw1 show ?thesis
    by simp
qed

text \<open>Reading back a blob that the medium holds.\<close>

lemma GetDataReader_reads:
  assumes "validateMessageID b messageID = None" "\<not> closed b"
    and "lstat w (getDataPath b messageID) = Inr (File_node B)"
  shows "\<exists>h w'. GetDataReader b None messageID w = (Inr h, w') \<and> io_ReadAll h w' = Inr B
    \<and> fs w' = fs w"
proof -
  let ?p = "getDataPath b messageID"
  from assms(3) have "walk (fs w) [] (resolve (cwd w) ?p) = Inr (File_node B)"
    by (auto simp: lstat_def split: option.splits)
  then have "node_at (fs w) (resolve (cwd w) ?p) = Some (File_node B)"
    using walk_Inr_node [of "fs w" "[]"] by simp
  with assms show ?thesis
    by (simp add: GetDataReader_def rlocked_def ctx_Done_def os_Open_def Let_def io_ReadAll_def)
qed

section \<open>Identifier validation\<close>

text \<open>
  Claim C3. An identifier that is empty, contains \<^verbatim>\<open>..\<close>, contains a forward or
  back slash, or is longer than 255 bytes makes each of the four operations return
  the validation error at once: the world comes back unchanged, so nothing was
  locked, nothing was read from or written to the medium, and the trace has no new
  event.
\<close>

theorem invalid_id_rejected_untouched:
  assumes "messageID = [] \<or> (\<exists>u v. messageID = u @ ''..'' @ v) \<or> CHR ''/'' \<in> set messageID
    \<or> CHR 0x5C \<in> set messageID \<or> length messageID > 255"
  shows "\<exists>msg. validateMessageID b messageID = Some (Errorf msg)
    \<and> StoreData b ctx messageID data w = (Inl (Errorf msg), w)
    \<and> GetDataReader b ctx messageID w = (Inl (Errorf msg), w)
    \<and> GetDataWriter b ctx messageID w = (Inl (Errorf msg), w)
    \<and> DeleteData b ctx messageID w = (Some (Errorf msg), w)"
proof -
  from assms have "validateMessageID b messageID \<noteq> None"
    unfolding validateMessageID_None_iff by auto
  then obtain msg where "validateMessageID b messageID = Some (Errorf msg)"
    by (auto simp: validateMessageID_def split: if_splits)
  then show ?thesis
    by (simp add: StoreData_def GetDataReader_def GetDataWriter_def DeleteData_def)
qed

theorem invalid_id_rejected_untouched_witness:
  "CHR ''/'' \<in> set ''a/b''
   \<and> StoreData example_backend None ''a/b'' (Reader ''x'' None) example_world
       = (Inl (Errorf ''messageID cannot contain path separators''), example_world)
   \<and> GetDataReader example_backend None ''a/b'' example_world
       = (Inl (Errorf ''messageID cannot contain path separators''), example_world)
   \<and> GetDataWriter example_backend None ''a/b'' example_world
       = (Inl (Errorf ''messageID cannot contain path separators''), example_world)
   \<and> DeleteData example_backend None ''a/b'' example_world
       = (Some (Errorf ''messageID cannot contain path separators''), example_world)"
proof -
  have h: "''a/b'' = [] \<or> (\<exists>u v. ''a/b'' = u @ ''..'' @ v) \<or> CHR ''/'' \<in> set ''a/b''
    \<or> CHR 0x5C \<in> set ''a/b'' \<or> length ''a/b'' > 255"
    by simp
  have v: "validateMessageID example_backend ''a/b''
    = Some (Errorf ''messageID cannot contain path separators'')"
    by (simp add: validateMessageID_def strings_ContainsAny_def)
  from invalid_id_rejected_untouched
    [OF h, of example_backend None "Reader ''x'' None" example_world] v
  show ?thesis
    by auto
qed

section \<open>The closed backend\<close>

text \<open>
  Validation runs before the closed flag is read, so a closed backend answers an
  invalid identifier with the validation error, not with the closed-backend error.
\<close>

theorem closed_backend_invalid_id_counterexample:
  "fst (StoreData (snd (fst (Close example_backend example_world))) None []
        (Reader ''x'' None) (snd (Close example_backend example_world)))
     = Inl (Errorf ''messageID cannot be empty'')
   \<and> fst (StoreData (snd (fst (Close example_backend example_world))) None []
        (Reader ''x'' None) (snd (Close example_backend example_world)))
     \<noteq> Inl (Errorf ''backend is closed'')"
  by (simp add: StoreData_def validateMessageID_def)

text \<open>
  Claim C6, amended. \<^verbatim>\<open>Close\<close> always succeeds, sets the flag and can be repeated
  with the same result. On the closed backend every operation fails without any
  call to the medium: with the closed-backend error when the identifier is valid
  (the lock is taken and released, nothing else happens), and with the validation
  error, the world untouched, when it is not.
\<close>

theorem closed_backend_rejects:
  assumes "Close b w = ((r, b'), w')"
  shows "r = None \<and> closed b' \<and> basePath b' = basePath b \<and> w' = emit Unlock (emit Lock w)
    \<and> Close b' w'' = ((None, b'), emit Unlock (emit Lock w''))
    \<and> (validateMessageID b' messageID = None \<longrightarrow>
          StoreData b' ctx messageID data w''
            = (Inl (Errorf ''backend is closed''), emit Unlock (emit Lock w''))
        \<and> GetDataReader b' ctx messageID w''
            = (Inl (Errorf ''backend is closed''), emit RUnlock (emit RLock w''))
        \<and> GetDataWriter b' ctx messageID w''
            = (Inl (Errorf ''backend is closed''), emit Unlock (emit Lock w''))
        \<and> DeleteData b' ctx messageID w''
            = (Some (Errorf ''backend is closed''), emit Unlock (emit Lock w'')))
    \<and> (\<forall>err. validateMessageID b' messageID = Some err \<longrightarrow>
          StoreData b' ctx messageID data w'' = (Inl err, w'')
        \<and> GetDataReader b' ctx messageID w'' = (Inl err, w'')
        \<and> GetDataWriter b' ctx messageID w'' = (Inl err, w'')
        \<and> DeleteData b' ctx messageID w'' = (Some err, w''))"
proof -
  from assms have b': "b' = b\<lparr>closed := True\<rparr>" and r: "r = None"
    and w': "w' = emit Unlock (emit Lock w)"
    by (auto simp: Close_def locked_def)
  have c: "closed b'" "basePath b' = basePath b"
    by (simp_all add: b')
  have again: "Close b' w'' = ((None, b'), emit Unlock (emit Lock w''))"
    by (simp add: Close_def locked_def b')
  from c(1) r w' c(2) again show ?thesis
    by (simp add: StoreData_def GetDataReader_def GetDataWriter_def DeleteData_def
        locked_def rlocked_def)
qed

theorem closed_backend_rejects_witness:
  "Close example_backend example_world
     = ((None, example_backend\<lparr>closed := True\<rparr>), emit Unlock (emit Lock example_world))
   \<and> validateMessageID (example_backend\<lparr>closed := True\<rparr>) ''abcd'' = None
   \<and> StoreData (example_backend\<lparr>closed := True\<rparr>) None ''abcd'' (Reader ''x'' None) example_world
       = (Inl (Errorf ''backend is closed''), emit Unlock (emit Lock example_world))
   \<and> GetDataReader (example_backend\<lparr>closed := True\<rparr>) None ''abcd'' example_world
       = (Inl (Errorf ''backend is closed''), emit RUnlock (emit RLock example_world))
   \<and> GetDataWriter (example_backend\<lparr>closed := True\<rparr>) None ''abcd'' example_world
       = (Inl (Errorf ''backend is closed''), emit Unlock (emit Lock example_world))
   \<and> DeleteData (example_backend\<lparr>closed := True\<rparr>) None ''abcd'' example_world
       = (Some (Errorf ''backend is closed''), emit Unlock (emit Lock example_world))"
proof -
  have h: "Close example_backend example_world
     = ((None, example_backend\<lparr>closed := True\<rparr>), emit Unlock (emit Lock example_world))"
    by (simp add: Close_def locked_def)
  from closed_backend_rejects [OF h, of example_world "''abcd''" None "Reader ''x'' None"]
    h valid_abcd [of "example_backend\<lparr>closed := True\<rparr>"]
  show ?thesis
    by simp
qed

section \<open>Cancellation\<close>

text \<open>
  What each operation appends to the trace once the identifier is valid and the
  backend is open: the lock, one read of the cancellation signal, and after that
  only calls to the medium and the unlock.
\<close>

lemma StoreData_trace:
  assumes "validateMessageID b messageID = None" "\<not> closed b"
  shows "\<exists>evs. trace (snd (StoreData b ctx messageID data w)) = trace w @ [Lock, CtxDone] @ evs
    \<and> CtxDone \<notin> set evs"
proof (cases ctx)
  case (Some cerr)
  with assms show ?thesis
    by (simp add: StoreData_def locked_def ctx_Done_def)
next
  case None
  let ?w0 = "emit CtxDone (emit Lock w)"
  let ?p = "getDataPath b messageID"
  obtain r1 w1 where mk: "os_MkdirAll (Dir ?p) ?w0 = (r1, w1)"
    by (cases "os_MkdirAll (Dir ?p) ?w0")
  have t1: "trace w1 = trace w @ [Lock, CtxDone, IO_MkdirAll (Dir ?p)]"
    using os_MkdirAll_trace [of "Dir ?p" ?w0] mk by simp
  show ?thesis
  proof (cases r1)
    case (Some err)
    with assms None mk t1 show ?thesis
      by (simp add: StoreData_def locked_def ctx_Done_def)
  next
    case mkok: None
    obtain r2 w2 where cr: "os_Create ?p w1 = (r2, w2)"
      by (cases "os_Create ?p w1")
    have t2: "trace w2 = trace w1 @ [IO_Create ?p]"
      using os_Create_trace [of ?p w1] cr by simp
    show ?thesis
    proof (cases r2)
      case (Inl err)
      with assms None mk mkok cr t1 t2 show ?thesis
        by (simp add: StoreData_def locked_def ctx_Done_def)
    next
      case (Inr dataFile)
      obtain sz cerr w3 where cp: "io_Copy dataFile data w2 = ((sz, cerr), w3)"
        by (cases "io_Copy dataFile data w2") auto
      obtain loc n where t3: "trace w3 = trace w2 @ [IO_Copy loc n]"
        using io_Copy_trace [of dataFile data w2] cp by auto
      obtain loc' where t4: "trace (file_Close dataFile w3) = trace w3 @ [IO_Close loc']"
        using file_Close_trace [of dataFile w3] by auto
      from assms None mk mkok cr Inr cp t1 t2 t3 t4 show ?thesis
        by (cases cerr) (simp_all add: StoreData_def locked_def ctx_Done_def)
    qed
  qed
qed

lemma GetDataWriter_trace:
  assumes "validateMessageID b messageID = None" "\<not> closed b"
  shows "\<exists>evs. trace (snd (GetDataWriter b ctx messageID w)) = trace w @ [Lock, CtxDone] @ evs
    \<and> CtxDone \<notin> set evs"
proof (cases ctx)
  case (Some cerr)
  with assms show ?thesis
    by (simp add: GetDataWriter_def locked_def ctx_Done_def)
next
  case None
  let ?w0 = "emit CtxDone (emit Lock w)"
  let ?p = "getDataPath b messageID"
  obtain r1 w1 where mk: "os_MkdirAll (Dir ?p) ?w0 = (r1, w1)"
    by (cases "os_MkdirAll (Dir ?p) ?w0")
  have t1: "trace w1 = trace w @ [Lock, CtxDone, IO_MkdirAll (Dir ?p)]"
    using os_MkdirAll_trace [of "Dir ?p" ?w0] mk by simp
  show ?thesis
  proof (cases r1)
    case (Some err)
    with assms None mk t1 show ?thesis
      by (simp add: GetDataWriter_def locked_def ctx_Done_def)
  next
    case mkok: None
    obtain r2 w2 where cr: "os_Create ?p w1 = (r2, w2)"
      by (cases "os_Create ?p w1")
    have t2: "trace w2 = trace w1 @ [IO_Create ?p]"
      using os_Create_trace [of ?p w1] cr by simp
    from assms None mk mkok cr t1 t2 show ?thesis
      by (cases r2) (simp_all add: GetDataWriter_def locked_def ctx_Done_def)
  qed
qed

lemma GetDataReader_trace:
  assumes "validateMessageID b messageID = None" "\<not> closed b"
  shows "\<exists>evs. trace (snd (GetDataReader b ctx messageID w)) = trace w @ [RLock, CtxDone] @ evs
    \<and> CtxDone \<notin> set evs"
proof (cases ctx)
  case (Some cerr)
  with assms show ?thesis
    by (simp add: GetDataReader_def rlocked_def ctx_Done_def)
next
  case None
  let ?w0 = "emit CtxDone (emit RLock w)"
  let ?p = "getDataPath b messageID"
  obtain r1 w1 where op: "os_Open ?p ?w0 = (r1, w1)"
    by (cases "os_Open ?p ?w0")
  have t1: "trace w1 = trace w @ [RLock, CtxDone, IO_Open ?p]"
    using os_Open_trace [of ?p ?w0] op by simp
  from assms None op t1 show ?thesis
    by (cases r1) (simp_all add: GetDataReader_def rlocked_def ctx_Done_def)
qed

lemma DeleteData_trace:
  assumes "validateMessageID b messageID = None" "\<not> closed b"
  shows "\<exists>evs. trace (snd (DeleteData b ctx messageID w)) = trace w @ [Lock, CtxDone] @ evs
    \<and> CtxDone \<notin> set evs"
proof (cases ctx)
  case (Some cerr)
  with assms show ?thesis
    by (simp add: DeleteData_def locked_def ctx_Done_def)
next
  case None
  let ?w0 = "emit CtxDone (emit Lock w)"
  let ?p = "getDataPath b messageID"
  obtain r1 w1 where rm: "os_Remove ?p ?w0 = (r1, w1)"
    by (cases "os_Remove ?p ?w0")
  have t1: "trace w1 = trace w @ [Lock, CtxDone, IO_Remove ?p]"
    using os_Remove_trace [of ?p ?w0] rm by simp
  obtain evs where t2: "trace (cleanupEmptyDirs b (Dir ?p) w1) = trace w1 @ evs"
    and io: "\<forall>e \<in> set evs. is_io e"
    using cleanupEmptyDirs_trace [of b "Dir ?p" w1] by blast
  from io have nc: "CtxDone \<notin> set evs"
    by auto
  from assms None rm t1 t2 nc show ?thesis
    by (cases r1) (simp_all add: DeleteData_def locked_def ctx_Done_def)
qed

text \<open>
  The closed flag is read before the cancellation signal, so a closed backend
  answers a cancelled context with the closed-backend error.
\<close>

theorem closed_backend_cancelled_counterexample:
  "fst (StoreData (example_backend\<lparr>closed := True\<rparr>) (Some Canceled) ''abcd''
        (Reader ''x'' None) example_world)
     = Inl (Errorf ''backend is closed'')
   \<and> fst (StoreData (example_backend\<lparr>closed := True\<rparr>) (Some Canceled) ''abcd''
        (Reader ''x'' None) example_world)
     \<noteq> Inl (CtxErr Canceled)"
  by (simp add: StoreData_def valid_abcd locked_def)

text \<open>
  Claim C7, amended. With a valid identifier and an open backend, every operation
  reads the cancellation signal exactly once, after it has taken the lock and read
  the closed flag and before any call to the medium. If the signal is already
  triggered, the operation returns the context's error and the world differs from
  the one it started in only by the trace entries for the lock, the read of the
  signal and the unlock: no I/O happened and the lock is released again.
\<close>

theorem cancellation_checked_once:
  assumes "validateMessageID b messageID = None" "\<not> closed b"
  shows "(\<forall>cerr. ctx = Some cerr \<longrightarrow>
            StoreData b ctx messageID data w
              = (Inl (CtxErr cerr), emit Unlock (emit CtxDone (emit Lock w)))
          \<and> GetDataReader b ctx messageID w
              = (Inl (CtxErr cerr), emit RUnlock (emit CtxDone (emit RLock w)))
          \<and> GetDataWriter b ctx messageID w
              = (Inl (CtxErr cerr), emit Unlock (emit CtxDone (emit Lock w)))
          \<and> DeleteData b ctx messageID w
              = (Some (CtxErr cerr), emit Unlock (emit CtxDone (emit Lock w))))
    \<and> (\<exists>evs. trace (snd (StoreData b ctx messageID data w)) = trace w @ [Lock, CtxDone] @ evs
          \<and> CtxDone \<notin> set evs)
    \<and> (\<exists>evs. trace (snd (GetDataReader b ctx messageID w)) = trace w @ [RLock, CtxDone] @ evs
          \<and> CtxDone \<notin> set evs)
    \<and> (\<exists>evs. trace (snd (GetDataWriter b ctx messageID w)) = trace w @ [Lock, CtxDone] @ evs
          \<and> CtxDone \<notin> set evs)
    \<and> (\<exists>evs. trace (snd (DeleteData b ctx messageID w)) = trace w @ [Lock, CtxDone] @ evs
          \<and> CtxDone \<notin> set evs)"
proof -
  have "\<forall>cerr. ctx = Some cerr \<longrightarrow>
            StoreData b ctx messageID data w
              = (Inl (CtxErr cerr), emit Unlock (emit CtxDone (emit Lock w)))
          \<and> GetDataReader b ctx messageID w
              = (Inl (CtxErr cerr), emit RUnlock (emit CtxDone (emit RLock w)))
          \<and> GetDataWriter b ctx messageID w
              = (Inl (CtxErr cerr), emit Unlock (emit CtxDone (emit Lock w)))
          \<and> DeleteData b ctx messageID w
              = (Some (CtxErr cerr), emit Unlock (emit CtxDone (emit Lock w)))"
    using assms
    by (simp add: StoreData_def GetDataReader_def GetDataWriter_def DeleteData_def
        locked_def rlocked_def ctx_Done_def)
  with StoreData_trace [OF assms] GetDataReader_trace [OF assms]
    GetDataWriter_trace [OF assms] DeleteData_trace [OF assms]
  show ?thesis
    by blast
qed

theorem cancellation_checked_once_witness:
  "validateMessageID example_backend ''abcd'' = None \<and> \<not> closed example_backend
   \<and> StoreData example_backend (Some Canceled) ''abcd'' (Reader ''x'' None) example_world
       = (Inl (CtxErr Canceled), emit Unlock (emit CtxDone (emit Lock example_world)))
   \<and> GetDataReader example_backend (Some Canceled) ''abcd'' example_world
       = (Inl (CtxErr Canceled), emit RUnlock (emit CtxDone (emit RLock example_world)))
   \<and> GetDataWriter example_backend (Some Canceled) ''abcd'' example_world
       = (Inl (CtxErr Canceled), emit Unlock (emit CtxDone (emit Lock example_world)))
   \<and> DeleteData example_backend (Some Canceled) ''abcd'' example_world
       = (Some (CtxErr Canceled), emit Unlock (emit CtxDone (emit Lock example_world)))"
proof -
  have v: "validateMessageID example_backend ''abcd'' = None"
    by (rule valid_abcd)
  have c: "\<not> closed example_backend"
    by (simp add: example_backend_def)
  from cancellation_checked_once
    [OF v c, of "Some Canceled" "Reader ''x'' None" example_world] v c
  show ?thesis
    by simp
qed

section \<open>Facts about paths\<close>

lemma split_elems_not_Nil [simp]: "split_elems s \<noteq> []"
  by (induction s) (auto split: list.splits)

lemma split_elems_append_sep:
  "split_elems (a @ Separator # b) = split_elems a @ split_elems b"
  by (induction a) (auto split: list.splits)

lemma split_elems_no_sep: "Separator \<notin> set s \<Longrightarrow> split_elems s = [s]"
  by (induction s) auto

lemma split_elems_chars: "e \<in> set (split_elems s) \<Longrightarrow> set e \<subseteq> set s - {Separator}"
proof (induction s arbitrary: e)
  case Nil
  then show ?case by simp
next
  case (Cons c cs)
  show ?case
  proof (cases "c = Separator")
    case True
    with Cons show ?thesis by auto
  next
    case False
    obtain x xs where sp: "split_elems cs = x # xs"
      by (cases "split_elems cs") auto
    with Cons.prems False have "e = c # x \<or> e \<in> set xs"
      by auto
    then show ?thesis
    proof
      assume "e = c # x"
      moreover have "set x \<subseteq> set cs - {Separator}"
        by (rule Cons.IH) (simp add: sp)
      ultimately show ?thesis using False by auto
    next
      assume "e \<in> set xs"
      then have "set e \<subseteq> set cs - {Separator}"
        by (intro Cons.IH) (simp add: sp)
      then show ?thesis by auto
    qed
  qed
qed

lemma path_elems_append_sep:
  "path_elems (a @ Separator # b) = path_elems a @ path_elems b"
  by (simp add: path_elems_def split_elems_append_sep)

lemma path_elems_Nil [simp]: "path_elems [] = []"
  by (simp add: path_elems_def)

lemma path_elems_name: "is_name e \<Longrightarrow> path_elems e = [e]"
  by (simp add: path_elems_def is_name_def split_elems_no_sep)

lemma path_elems_chars: "e \<in> set (path_elems s) \<Longrightarrow> set e \<subseteq> set s - {Separator}"
  using split_elems_chars [of e s] by (simp add: path_elems_def)

lemma path_elems_ok:
  "e \<in> set (path_elems s) \<Longrightarrow> e \<noteq> [] \<and> e \<noteq> ''.'' \<and> Separator \<notin> set e"
  using split_elems_chars [of e s] by (auto simp: path_elems_def)

lemma strings_Join_snoc:
  "xs \<noteq> [] \<Longrightarrow> strings_Join (xs @ [e]) sep = strings_Join xs sep @ sep @ e"
  by (induction xs sep rule: strings_Join.induct) auto

lemma path_elems_Join:
  "(\<And>e. e \<in> set xs \<Longrightarrow> e \<noteq> [] \<and> e \<noteq> ''.'' \<and> Separator \<notin> set e)
    \<Longrightarrow> path_elems (strings_Join xs [Separator]) = xs"
proof (induction xs rule: rev_induct)
  case Nil
  then show ?case by simp
next
  case (snoc e xs)
  have e: "path_elems e = [e]"
    using snoc.prems [of e] by (simp add: path_elems_def split_elems_no_sep)
  show ?case
  proof (cases "xs = []")
    case True
    with e show ?thesis by simp
  next
    case False
    have "path_elems (strings_Join xs [Separator]) = xs"
      by (rule snoc.IH) (simp add: snoc.prems)
    with False e show ?thesis
      by (simp add: strings_Join_snoc path_elems_append_sep)
  qed
qed

lemma rooted_Join:
  assumes "xs \<noteq> []" "hd xs \<noteq> []" "Separator \<notin> set (hd xs)"
  shows "\<not> rooted (strings_Join xs [Separator])"
proof -
  obtain x rest where xs: "xs = x # rest"
    using assms(1) by (cases xs) auto
  with assms have "x \<noteq> []" "hd x \<noteq> Separator"
    by (auto simp: neq_Nil_conv)
  then show ?thesis
    by (cases rest) (simp_all add: xs rooted_def)
qed

text \<open>The buffer of \<^verbatim>\<open>Clean\<close> holds only elements of its input.\<close>

lemma clean_step_set: "set (clean_step r out e) \<subseteq> set out \<union> {e}"
  by (auto simp: clean_step_def dest: in_set_butlastD)

lemma clean_fold_set: "set (foldl (clean_step r) out es) \<subseteq> set out \<union> set es"
proof (induction es arbitrary: out)
  case Nil
  then show ?case by simp
next
  case (Cons e es)
  from Cons.IH [of "clean_step r out e"] clean_step_set [of r out e]
  show ?case by auto
qed

lemma clean_fold_names:
  "(\<And>e. e \<in> set es \<Longrightarrow> e \<noteq> ''..'') \<Longrightarrow> foldl (clean_step r) out es = out @ es"
  by (induction es arbitrary: out) (simp_all add: clean_step_def)

lemma Clean_elems:
  "path_elems (Clean p) = foldl (clean_step (rooted p)) [] (path_elems p)
   \<and> rooted (Clean p) = rooted p"
proof (cases "p = []")
  case True
  then show ?thesis
    by (simp add: Clean_def rooted_def path_elems_def Separator_def)
next
  case False
  let ?out = "foldl (clean_step (rooted p)) [] (path_elems p)"
  have ok: "e \<noteq> [] \<and> e \<noteq> ''.'' \<and> Separator \<notin> set e" if "e \<in> set ?out" for e
  proof -
    from that clean_fold_set [of "rooted p" "[]" "path_elems p"]
    have "e \<in> set (path_elems p)" by auto
    then show ?thesis by (rule path_elems_ok)
  qed
  have pj: "path_elems (strings_Join ?out [Separator]) = ?out"
    by (rule path_elems_Join) (rule ok)
  show ?thesis
  proof (cases "rooted p")
    case True
    have "path_elems (Separator # strings_Join ?out [Separator])
        = path_elems [] @ path_elems (strings_Join ?out [Separator])"
      using path_elems_append_sep [of "[]"] by simp
    with True False pj show ?thesis
      by (simp add: Clean_def Let_def rooted_def)
  next
    case nr: False
    show ?thesis
    proof (cases "?out = []")
      case True
      with nr False show ?thesis
        by (simp add: Clean_def Let_def rooted_def path_elems_def Separator_def)
    next
      case ne: False
      have "hd ?out \<in> set ?out"
        using ne by simp
      from ok [OF this] ne have "\<not> rooted (strings_Join ?out [Separator])"
        by (intro rooted_Join) simp_all
      with nr False ne pj show ?thesis
        by (simp add: Clean_def Let_def)
    qed
  qed
qed

lemma abs_fold_clean:
  assumes "r \<longrightarrow> init = [] \<and> ''..'' \<notin> set out"
  shows "foldl abs_step init (foldl (clean_step r) out es)
    = foldl abs_step (foldl abs_step init out) es"
  using assms
proof (induction es arbitrary: out)
  case Nil
  then show ?case by simp
next
  case (Cons e es)
  let ?out' = "clean_step r out e"
  have inv: "r \<longrightarrow> init = [] \<and> ''..'' \<notin> set ?out'"
    using Cons.prems by (auto simp: clean_step_def dest: in_set_butlastD)
  have step: "foldl abs_step init ?out' = abs_step (foldl abs_step init out) e"
  proof (cases "e = ''..''")
    case False
    then show ?thesis by (simp add: clean_step_def)
  next
    case dd: True
    show ?thesis
    proof (cases "out \<noteq> [] \<and> last out \<noteq> ''..''")
      case True
      then have "out = butlast out @ [last out]" by simp
      then have "foldl abs_step init out
          = abs_step (foldl abs_step init (butlast out)) (last out)"
        by (metis foldl_Cons foldl_Nil foldl_append)
      with True dd show ?thesis
        by (simp add: clean_step_def abs_step_def)
    next
      case False
      show ?thesis
      proof (cases r)
        case True
        with Cons.prems have i: "init = []" and nd: "''..'' \<notin> set out"
          by simp_all
        have "out = []"
        proof (rule ccontr)
          assume ne: "out \<noteq> []"
          with False have "last out = ''..''"
            by simp
          moreover from ne have "last out \<in> set out"
            by (rule last_in_set)
          ultimately show False
            using nd by simp
        qed
        with True dd i show ?thesis
          by (simp add: clean_step_def abs_step_def)
      next
        case nr: False
        with False dd show ?thesis
          by (auto simp: clean_step_def)
      qed
    qed
  qed
  from Cons.IH [OF inv] step show ?case by simp
qed

lemma resolve_Clean: "resolve wd (Clean p) = resolve wd p"
proof -
  have "foldl abs_step (if rooted p then [] else wd)
      (foldl (clean_step (rooted p)) [] (path_elems p))
    = foldl abs_step (foldl abs_step (if rooted p then [] else wd) []) (path_elems p)"
    by (rule abs_fold_clean) simp
  then show ?thesis
    by (simp add: resolve_def Clean_elems)
qed

lemma abs_fold_names:
  "(\<And>e. e \<in> set es \<Longrightarrow> e \<noteq> ''..'') \<Longrightarrow> foldl abs_step cur es = cur @ es"
  by (induction es arbitrary: cur) (simp_all add: abs_step_def)

text \<open>The two names \<^verbatim>\<open>getDataPath\<close> appends for a valid identifier.\<close>

lemma valid_names:
  assumes "validateMessageID b messageID = None"
  shows "is_name (shard_of messageID)" "is_name (messageID @ ''.data'')"
proof -
  from assms have ne: "messageID \<noteq> []"
    and nd: "\<not> (\<exists>u v. messageID = u @ ''..'' @ v)"
    and ns: "CHR ''/'' \<notin> set messageID"
    by (simp_all add: validateMessageID_None_iff)
  show "is_name (messageID @ ''.data'')"
  proof -
    have "length (messageID @ ''.data'') \<ge> 6"
      using ne by (cases messageID) simp_all
    then have "messageID @ ''.data'' \<noteq> ''.''" "messageID @ ''.data'' \<noteq> ''..''"
      by auto
    with ns show ?thesis
      by (simp add: is_name_def Separator_def)
  qed
  show "is_name (shard_of messageID)"
  proof (cases "length messageID \<ge> 2")
    case False
    then show ?thesis
      by (simp add: shard_of_def is_name_def Separator_def)
  next
    case True
    have "take 2 messageID \<noteq> ''..''"
    proof
      assume "take 2 messageID = ''..''"
      then have "messageID = [] @ ''..'' @ drop 2 messageID"
        by (metis append_Nil append_take_drop_id)
      with nd show False by blast
    qed
    moreover have l: "length (take 2 messageID) = 2"
      using True by simp
    have "take 2 messageID \<noteq> []" "take 2 messageID \<noteq> ''.''"
    proof -
      show "take 2 messageID \<noteq> []"
        using l by auto
      show "take 2 messageID \<noteq> ''.''"
      proof
        assume "take 2 messageID = ''.''"
        then have "length (take 2 messageID) = length ''.''"
          by (rule arg_cong)
        with l show False by simp
      qed
    qed
    moreover have "CHR ''/'' \<notin> set (take 2 messageID)"
      using ns by (auto dest: in_set_takeD)
    ultimately show ?thesis
      using True by (simp add: shard_of_def is_name_def Separator_def)
  qed
qed

lemma getDataPath_Join:
  "getDataPath b messageID = Join [basePath b, shard_of messageID, messageID @ ''.data'']"
  by (simp add: getDataPath_def shard_of_def)

lemma Join3:
  assumes "is_name s"
  shows "Join [a, s, f] =
    Clean (if a = [] then s @ Separator # f else a @ Separator # s @ Separator # f)"
  using assms by (simp add: Join_def is_name_def)

lemma rooted_append: "a \<noteq> [] \<Longrightarrow> rooted (a @ x) = rooted a"
  by (simp add: rooted_def)




text \<open>\<^verbatim>\<open>Clean\<close> invents no byte but the dot and the separator, and does not lengthen.\<close>

lemma strings_Join_chars: "set (strings_Join xs sep) \<subseteq> (\<Union>e \<in> set xs. set e) \<union> set sep"
  by (induction xs sep rule: strings_Join.induct) auto

lemma Clean_chars: "set (Clean p) \<subseteq> set p \<union> {CHR ''.'', Separator}"
proof -
  let ?out = "foldl (clean_step (rooted p)) [] (path_elems p)"
  have "(\<Union>e \<in> set ?out. set e) \<subseteq> set p"
    using clean_fold_set [of "rooted p" "[]" "path_elems p"] path_elems_chars [of _ p]
    by fastforce
  with strings_Join_chars [of ?out "[Separator]"]
  have "set (strings_Join ?out [Separator]) \<subseteq> set p \<union> {Separator}"
    by auto
  then show ?thesis
    by (auto simp: Clean_def Let_def)
qed


lemma split_elems_size: "(\<Sum>e\<leftarrow>split_elems p. Suc (length e)) = Suc (length p)"
  by (induction p) (auto split: list.splits)

lemma butlast_size: "(\<Sum>e\<leftarrow>butlast xs. Suc (length e)) \<le> (\<Sum>e\<leftarrow>xs. Suc (length e))"
  by (induction xs) auto

lemma clean_fold_size:
  "(\<Sum>e\<leftarrow>foldl (clean_step r) out es. Suc (length e))
    \<le> (\<Sum>e\<leftarrow>out. Suc (length e)) + (\<Sum>e\<leftarrow>es. Suc (length e))"
proof (induction es arbitrary: out)
  case Nil
  then show ?case by simp
next
  case (Cons e es)
  have "(\<Sum>x\<leftarrow>clean_step r out e. Suc (length x)) \<le> (\<Sum>x\<leftarrow>out. Suc (length x)) + Suc (length e)"
    using butlast_size [of out] by (auto simp: clean_step_def)
  with Cons.IH [of "clean_step r out e"] show ?case
    by simp
qed

lemma strings_Join_size:
  "length (strings_Join xs [Separator]) = (\<Sum>e\<leftarrow>xs. Suc (length e)) - 1"
  by (induction xs "[Separator]" rule: strings_Join.induct) auto

lemma path_elems_size: "(\<Sum>e\<leftarrow>path_elems p. Suc (length e)) \<le> Suc (length p)"
  unfolding path_elems_def
  using sum_list_filter_le_nat [of "\<lambda>e. Suc (length e)" _ "split_elems p"]
  by (simp add: split_elems_size)

lemma path_elems_rooted_size:
  assumes "rooted p"
  shows "(\<Sum>e\<leftarrow>path_elems p. Suc (length e)) \<le> length p"
proof -
  from assms obtain p' where p: "p = Separator # p'"
    by (cases p) (auto simp: rooted_def)
  then have "path_elems p = path_elems p'"
    by (simp add: path_elems_def)
  with path_elems_size [of p'] p show ?thesis
    by simp
qed

lemma Clean_length: "length (Clean p) \<le> max 1 (length p)"
proof (cases "p = []")
  case True
  then show ?thesis by (simp add: Clean_def)
next
  case False
  let ?out = "foldl (clean_step (rooted p)) [] (path_elems p)"
  have o: "(\<Sum>e\<leftarrow>?out. Suc (length e)) \<le> (\<Sum>e\<leftarrow>path_elems p. Suc (length e))"
    using clean_fold_size [of "rooted p" "[]" "path_elems p"] by simp
  from False have p1: "1 \<le> length p"
    by (cases p) simp_all
  show ?thesis
  proof (cases "rooted p")
    case True
    from o path_elems_rooted_size [OF True]
    have "(\<Sum>e\<leftarrow>?out. Suc (length e)) \<le> length p"
      by simp
    with True False p1 show ?thesis
      by (simp add: Clean_def Let_def strings_Join_size)
  next
    case nr: False
    from o path_elems_size [of p]
    have "(\<Sum>e\<leftarrow>?out. Suc (length e)) \<le> Suc (length p)"
      by simp
    with nr False p1 show ?thesis
      by (auto simp: Clean_def Let_def strings_Join_size)
  qed
qed










lemma example_backend_simps [simp]:
  "basePath example_backend = ''/data''" "closed example_backend = False"
  by (simp_all add: example_backend_def)

lemma example_world_simps [simp]:
  "fs example_world = [([''data''], Dir_node)]" "cwd example_world = []"
  by (simp_all add: example_world_def)

lemma blocked_world_simps [simp]:
  "fs blocked_world = [([''data''], Dir_node), ([''data'', ''ab''], File_node ''x'')]"
  "cwd blocked_world = []"
  by (simp_all add: blocked_world_def)

lemma resolve_data [simp]: "resolve [] ''/data'' = [''data'']"
  by (simp add: resolve_def path_elems_def rooted_def abs_step_def Separator_def)



lemma shard_world_simps [simp]:
  "fs shard_world = [([''data''], Dir_node), ([''data'', ''aa''], Dir_node),
     ([''data'', ''aa'', ''aab.data''], File_node ''x'')]"
  "cwd shard_world = []"
  by (simp_all add: shard_world_def)





section \<open>Reading a missing blob\<close>




text \<open>The cleaned buffer holds proper elements only.\<close>

lemma clean_fold_ok:
  assumes "e \<in> set (foldl (clean_step r) [] (path_elems p))"
  shows "e \<noteq> [] \<and> e \<noteq> ''.'' \<and> Separator \<notin> set e"
proof -
  from assms clean_fold_set [of r "[]" "path_elems p"]
  have "e \<in> set (path_elems p)" by auto
  then show ?thesis by (rule path_elems_ok)
qed

lemma Clean_not_Nil: "Clean p \<noteq> []"
proof (cases "p = [] \<or> rooted p \<or> foldl (clean_step (rooted p)) [] (path_elems p) = []")
  case True
  then show ?thesis
    by (auto simp: Clean_def Let_def)
next
  case False
  let ?out = "foldl (clean_step (rooted p)) [] (path_elems p)"
  have "path_elems (strings_Join ?out [Separator]) = ?out"
    by (rule path_elems_Join) (rule clean_fold_ok)
  with False have "strings_Join ?out [Separator] \<noteq> []"
    by auto
  with False show ?thesis
    by (simp add: Clean_def Let_def)
qed

text \<open>
  The data path as a string: the cleaned base elements and the shard, joined, then
  a separator and the file name.
\<close>

lemma Join3_string:
  assumes "is_name s" "is_name f"
  shows "Join [a, s, f] =
    (if rooted a then [Separator] else [])
      @ strings_Join (foldl (clean_step (rooted a)) [] (path_elems a) @ [s]) [Separator]
      @ Separator # f"
proof -
  let ?q = "if a = [] then s @ Separator # f else a @ Separator # s @ Separator # f"
  let ?C = "foldl (clean_step (rooted a)) [] (path_elems a)"
  have q: "?q \<noteq> []"
    by simp
  have r: "rooted ?q = rooted a"
    using assms(1) by (auto simp: rooted_def is_name_def neq_Nil_conv)
  have pe: "path_elems ?q = path_elems a @ [s, f]"
    using assms by (simp add: path_elems_append_sep path_elems_name)
  have nn: "e \<noteq> ''..''" if "e \<in> set [s, f]" for e
    using that assms by (auto simp: is_name_def)
  have "foldl (clean_step (rooted a)) [] (path_elems a @ [s, f]) = ?C @ [s, f]"
    unfolding foldl_append by (rule clean_fold_names) (rule nn)
  then have out: "foldl (clean_step (rooted ?q)) [] (path_elems ?q) = (?C @ [s]) @ [f]"
    by (simp only: r pe) simp
  have j: "strings_Join ((?C @ [s]) @ [f]) [Separator]
      = strings_Join (?C @ [s]) [Separator] @ Separator # f"
    using strings_Join_snoc [of "?C @ [s]" f "[Separator]"] by simp
  have "Clean ?q = (if rooted a then [Separator] else [])
      @ strings_Join (?C @ [s]) [Separator] @ Separator # f"
    unfolding Clean_def Let_def out j using q r by simp
  then show ?thesis
    by (simp only: Join3 [OF assms(1)])
qed

lemma upto_last_sep:
  assumes "Separator \<notin> set f"
  shows "rev (dropWhile (\<lambda>c. c \<noteq> Separator) (rev (x @ Separator # f))) = x @ [Separator]"
proof -
  have "dropWhile (\<lambda>c. c \<noteq> Separator) (rev f @ Separator # rev x)
      = dropWhile (\<lambda>c. c \<noteq> Separator) (Separator # rev x)"
    by (rule dropWhile_append2) (use assms in auto)
  then show ?thesis
    by simp
qed

text \<open>The parent directory of the data path depends on the base path and the shard only.\<close>

lemma Dir_Join3:
  assumes "is_name s" "is_name f"
  shows "Dir (Join [a, s, f]) =
    Clean ((if rooted a then [Separator] else [])
      @ strings_Join (foldl (clean_step (rooted a)) [] (path_elems a) @ [s]) [Separator]
      @ [Separator])"
proof -
  let ?pre = "(if rooted a then [Separator] else [])
      @ strings_Join (foldl (clean_step (rooted a)) [] (path_elems a) @ [s]) [Separator]"
  have j: "Join [a, s, f] = ?pre @ Separator # f"
    using Join3_string [OF assms] by simp
  have "Separator \<notin> set f"
    using assms(2) by (simp add: is_name_def)
  then have "rev (dropWhile (\<lambda>c. c \<noteq> Separator) (rev (?pre @ Separator # f)))
      = ?pre @ [Separator]"
    by (rule upto_last_sep)
  then show ?thesis
    unfolding Dir_def j by simp
qed

lemma Dir_Join3_resolve:
  assumes "is_name s" "is_name f"
  shows "resolve wd (Dir (Join [a, s, f])) = resolve wd a @ [s]"
proof -
  let ?C = "foldl (clean_step (rooted a)) [] (path_elems a)"
  let ?J = "strings_Join (?C @ [s]) [Separator]"
  let ?x = "(if rooted a then [Separator] else []) @ ?J @ [Separator]"
  have ok: "e \<noteq> [] \<and> e \<noteq> ''.'' \<and> Separator \<notin> set e" if "e \<in> set (?C @ [s])" for e
    using that clean_fold_ok [of e "rooted a" a] assms(1) by (auto simp: is_name_def)
  have pj: "path_elems ?J = ?C @ [s]"
    by (rule path_elems_Join) (rule ok)
  have nr: "\<not> rooted ?J"
  proof (rule rooted_Join)
    show "?C @ [s] \<noteq> []" by simp
    have "hd (?C @ [s]) \<in> set (?C @ [s])"
      by (rule hd_in_set) simp
    from ok [OF this] show "hd (?C @ [s]) \<noteq> []" "Separator \<notin> set (hd (?C @ [s]))"
      by simp_all
  qed
  have jn: "?J \<noteq> []"
    using pj by auto
  have pe: "path_elems ?x = ?C @ [s]"
  proof (cases "rooted a")
    case True
    have "path_elems (Separator # ?J @ [Separator]) = path_elems [] @ path_elems (?J @ [Separator])"
      using path_elems_append_sep [of "[]" "?J @ [Separator]"] by simp
    also have "path_elems (?J @ [Separator]) = path_elems ?J @ path_elems []"
      by (rule path_elems_append_sep)
    finally show ?thesis
      using True pj by simp
  next
    case False
    have "path_elems (?J @ [Separator]) = path_elems ?J @ path_elems []"
      by (rule path_elems_append_sep)
    with False pj show ?thesis by simp
  qed
  have rx: "rooted ?x = rooted a"
  proof (cases "rooted a")
    case True
    then show ?thesis by (simp add: rooted_def)
  next
    case False
    with nr jn show ?thesis
      by (simp add: rooted_append)
  qed
  have nn: "e \<noteq> ''..''" if "e \<in> set [s]" for e
    using that assms(1) by (auto simp: is_name_def)
  have "resolve wd ?x = foldl abs_step (if rooted a then [] else wd) (?C @ [s])"
    by (simp only: resolve_def rx pe)
  also have "\<dots> = foldl abs_step (foldl abs_step (if rooted a then [] else wd) ?C) [s]"
    by simp
  also have "foldl abs_step (if rooted a then [] else wd) ?C
      = foldl abs_step (foldl abs_step (if rooted a then [] else wd) []) (path_elems a)"
    by (rule abs_fold_clean) simp
  also have "foldl abs_step (foldl abs_step (foldl abs_step (if rooted a then [] else wd) [])
      (path_elems a)) [s] = resolve wd a @ [s]"
    using abs_fold_names [of "[s]" "resolve wd a"] nn by (simp add: resolve_def)
  finally show ?thesis
    by (simp only: Dir_Join3 [OF assms] resolve_Clean)
qed

lemma Dir_getDataPath_location:
  assumes "validateMessageID b messageID = None"
  shows "resolve wd (Dir (getDataPath b messageID))
    = resolve wd (basePath b) @ [shard_of messageID]"
  unfolding getDataPath_Join
  by (rule Dir_Join3_resolve) (rule valid_names [OF assms])+

lemma Dir_chars: "set (Dir p) \<subseteq> set p \<union> {CHR ''.'', Separator}"
proof -
  have "set (rev (dropWhile (\<lambda>c. c \<noteq> Separator) (rev p))) \<subseteq> set p"
    by (auto dest: set_dropWhileD)
  with Clean_chars [of "rev (dropWhile (\<lambda>c. c \<noteq> Separator) (rev p))"] show ?thesis
    unfolding Dir_def by blast
qed

lemma Dir_length: "length (Dir p) \<le> max 1 (length p)"
proof -
  have "length (rev (dropWhile (\<lambda>c. c \<noteq> Separator) (rev p))) \<le> length p"
    using length_dropWhile_le [of "\<lambda>c. c \<noteq> Separator" "rev p"] by simp
  with Clean_length [of "rev (dropWhile (\<lambda>c. c \<noteq> Separator) (rev p))"] show ?thesis
    unfolding Dir_def by simp
qed

lemma Dir_path_check:
  assumes "path_check p = None"
  shows "path_check (Dir p) = None"
proof -
  from assms have n: "CHR 0x00 \<notin> set p" and l: "length p < PATH_MAX"
    by (auto simp: path_check_def split: if_splits)
  from n Dir_chars [of p] have "CHR 0x00 \<notin> set (Dir p)"
    by (auto simp: Separator_def)
  moreover from l Dir_length [of p] have "length (Dir p) < PATH_MAX"
    by (simp add: PATH_MAX_def)
  moreover have "Dir p \<noteq> []"
    unfolding Dir_def by (rule Clean_not_Nil)
  ultimately show ?thesis
    by (simp add: path_check_def)
qed

end
